theory Spec2Isabelle
  imports Main "HOL-Library.Sublist" "HOL-Library.Multiset"
begin

section \<open>The per-guild music player of \<^verbatim>\<open>bot.py\<close>\<close>

text \<open>
  The source is an asyncio program.  Its event loop runs one coroutine at a time and
  switches only at an \<^verbatim>\<open>await\<close> that really suspends, so the program is modelled
  as a state machine whose steps are the code segments between two suspension points:
  a command handler calling \<^verbatim>\<open>enqueue\<close>, \<^verbatim>\<open>start\<close> or \<^verbatim>\<open>stop\<close>
  (none of which suspends), one resumption of the task running \<^verbatim>\<open>_player_loop\<close>,
  the passing of one unit of time, and the events of the voice collaborator.
\<close>

subsection \<open>Data\<close>

text \<open>The dataclass \<^verbatim>\<open>Track\<close> (lines 49-54).\<close>

record track =
  title :: string
  url :: string
  stream_url :: string
  requester_id :: int

text \<open>
  The voice collaborator \<^verbatim>\<open>guild.voice_client\<close>, as far as the player reads it:
  \<^verbatim>\<open>is_connected()\<close> and \<^verbatim>\<open>is_playing()\<close>.
\<close>

record voice_client =
  connected :: bool
  playing :: bool

text \<open>\<^verbatim>\<open>discord.Guild\<close>: its id and its voice client, if any.\<close>

record guild =
  gid :: int
  guild_voice :: "voice_client option"

text \<open>
  \<^verbatim>\<open>asyncio.Queue()\<close> without a size bound: the queued items and the counter of
  unfinished tasks, which \<^verbatim>\<open>put\<close> increments and \<^verbatim>\<open>task_done\<close> decrements.
\<close>

record aqueue =
  items :: "track list"
  unfinished_tasks :: nat

datatype error =
    ValueError        \<comment> \<open>\<^verbatim>\<open>Queue.task_done\<close> called more often than items were put\<close>
  | ClientException   \<comment> \<open>\<^verbatim>\<open>VoiceClient.play\<close> while audio is already playing\<close>

text \<open>
  The task running \<^verbatim>\<open>_player_loop\<close>.  While it is active it is suspended at one
  of the loop's awaits (or has not run yet); the flag records that \<^verbatim>\<open>Task.cancel()\<close>
  was called and the \<^verbatim>\<open>CancelledError\<close> is not delivered yet.  A finished task
  remembers how the coroutine ended.
\<close>

datatype pc =
    Created           \<comment> \<open>\<^verbatim>\<open>create_task\<close> returned, the coroutine has not run yet\<close>
  | Waiting nat       \<comment> \<open>line 112, in \<^verbatim>\<open>wait_for(queue.get(), timeout=300)\<close> for that many time units\<close>
  | Timed_out         \<comment> \<open>line 112, the timeout has expired, \<^verbatim>\<open>TimeoutError\<close> is pending\<close>
  | Disconnecting     \<comment> \<open>line 116, in \<^verbatim>\<open>await vc.disconnect(force=False)\<close>\<close>
  | Polling           \<comment> \<open>line 131, in \<^verbatim>\<open>await asyncio.sleep(1)\<close>\<close>

datatype exit =
    Loop_ended        \<comment> \<open>line 110: the \<^verbatim>\<open>while\<close> condition was false\<close>
  | Idle_break        \<comment> \<open>line 117: \<^verbatim>\<open>break\<close> after the timeout\<close>
  | Cancelled         \<comment> \<open>\<^verbatim>\<open>CancelledError\<close> left the coroutine\<close>
  | Raised error      \<comment> \<open>another exception left the coroutine\<close>

datatype task = Active pc bool | Done exit

text \<open>
  \<^verbatim>\<open>MusicPlayer\<close> (lines 78-85).  \<open>voice_client p\<close> stands for
  \<^verbatim>\<open>self.guild.voice_client\<close>, and \<open>paused p\<close> for its
  \<^verbatim>\<open>is_paused()\<close>: audio is started by line 129 only, so the voice client of a
  new player has no paused audio, and the flag is kept here from the creation on.
  Five more fields are not attributes of the class:
  \<open>old_tasks\<close> are the tasks \<^verbatim>\<open>_player_task\<close> referred to before it was
  reassigned (the event loop keeps running any of them that is not done),
  \<open>loop_callbacks\<close> counts the \<^verbatim>\<open>queue.task_done\<close> callbacks that the
  \<^verbatim>\<open>after\<close> function of line 129 has scheduled on \<^verbatim>\<open>bot.loop\<close> and that
  have not run yet, \<open>play_calls\<close> and \<open>disconnect_calls\<close> record what the
  voice collaborator was asked to do, and \<open>dropped\<close> records the tracks that were
  taken from the queue and not handed to the voice collaborator.
\<close>

record music_player =
  guild_id :: int
  voice_client :: "voice_client option"
  paused :: bool
  queue :: aqueue
  now_playing :: "track option"
  player_task :: "task option"
  stopped :: bool
  old_tasks :: "task list"
  loop_callbacks :: nat
  play_calls :: "track list"
  disconnect_calls :: nat
  dropped :: "track list"

definition new_player :: "guild \<Rightarrow> music_player" where
  "new_player g =
     \<lparr>guild_id = gid g, voice_client = guild_voice g, paused = False,
      queue = \<lparr>items = [], unfinished_tasks = 0\<rparr>,
      now_playing = None, player_task = None, stopped = False,
      old_tasks = [], loop_callbacks = 0, play_calls = [], disconnect_calls = 0,
      dropped = []\<rparr>"

subsection \<open>The library calls the player makes\<close>

text \<open>\<^verbatim>\<open>asyncio.Queue\<close>: \<^verbatim>\<open>empty\<close>, \<^verbatim>\<open>put_nowait\<close>, \<^verbatim>\<open>get_nowait\<close>
  (\<open>None\<close> is \<^verbatim>\<open>QueueEmpty\<close>) and \<^verbatim>\<open>task_done\<close> (\<open>None\<close> is
  \<^verbatim>\<open>ValueError\<close>).\<close>

definition qempty :: "aqueue \<Rightarrow> bool" where
  "qempty q = (items q = [])"

definition put_nowait :: "track \<Rightarrow> aqueue \<Rightarrow> aqueue" where
  "put_nowait t q = \<lparr>items = items q @ [t], unfinished_tasks = Suc (unfinished_tasks q)\<rparr>"

definition get_nowait :: "aqueue \<Rightarrow> (track \<times> aqueue) option" where
  "get_nowait q = (case items q of [] \<Rightarrow> None | t # ts \<Rightarrow> Some (t, q\<lparr>items := ts\<rparr>))"

definition task_done :: "aqueue \<Rightarrow> aqueue option" where
  "task_done q =
     (case unfinished_tasks q of 0 \<Rightarrow> None | Suc u \<Rightarrow> Some (q\<lparr>unfinished_tasks := u\<rparr>))"

text \<open>\<^verbatim>\<open>asyncio.Task\<close>: \<^verbatim>\<open>done()\<close> and \<^verbatim>\<open>cancel()\<close>.  Cancelling a finished
  task does nothing; cancelling an active one only requests the cancellation.\<close>

fun task_is_done :: "task \<Rightarrow> bool" where
  "task_is_done (Done x) = True"
| "task_is_done (Active c b) = False"

fun cancel :: "task \<Rightarrow> task" where
  "cancel (Done x) = Done x"
| "cancel (Active c b) = Active c True"

text \<open>The voice client as the player and the commands see it:
  \<^verbatim>\<open>vc and vc.is_playing()\<close>, \<^verbatim>\<open>vc and vc.is_connected()\<close>,
  \<^verbatim>\<open>vc and vc.is_paused()\<close>.\<close>

definition vc_is_playing :: "music_player \<Rightarrow> bool" where
  "vc_is_playing p = (case voice_client p of None \<Rightarrow> False | Some vc \<Rightarrow> playing vc)"

definition vc_is_connected :: "music_player \<Rightarrow> bool" where
  "vc_is_connected p = (case voice_client p of None \<Rightarrow> False | Some vc \<Rightarrow> connected vc)"

definition vc_is_paused :: "music_player \<Rightarrow> bool" where
  "vc_is_paused p = (case voice_client p of None \<Rightarrow> False | Some vc \<Rightarrow> paused p)"

text \<open>
  The playing audio of the voice client ends: \<^verbatim>\<open>is_playing()\<close> turns false and
  the \<^verbatim>\<open>after\<close> function of line 129 schedules \<^verbatim>\<open>queue.task_done\<close> on the
  event loop.  This is what the end of a track causes, and what \<^verbatim>\<open>vc.stop()\<close>
  causes where the source calls it, under the test \<^verbatim>\<open>vc.is_playing()\<close>
  (lines 94-95 and 295-296).
\<close>

definition end_playback :: "music_player \<Rightarrow> music_player" where
  "end_playback p =
     (case voice_client p of
        None \<Rightarrow> p
      | Some vc \<Rightarrow>
          if playing vc
          then p\<lparr>voice_client := Some (vc\<lparr>playing := False\<rparr>),
                 loop_callbacks := Suc (loop_callbacks p)\<rparr>
          else p)"

text \<open>
  \<^verbatim>\<open>VoiceClient.stop()\<close> without a test before it, as \<^verbatim>\<open>disconnect\<close> calls
  it: the audio ends whether it plays or is paused.
\<close>

definition vc_stop :: "music_player \<Rightarrow> music_player" where
  "vc_stop p =
     (case voice_client p of
        None \<Rightarrow> p
      | Some vc \<Rightarrow>
          if playing vc \<or> paused p
          then p\<lparr>voice_client := Some (vc\<lparr>playing := False\<rparr>), paused := False,
                 loop_callbacks := Suc (loop_callbacks p)\<rparr>
          else p)"

text \<open>
  \<^verbatim>\<open>vc.disconnect(force=False)\<close> on an existing voice client: the call is counted;
  a connected client stops its audio and is removed from the guild, a client that is
  not connected returns at once.
\<close>

definition vc_disconnect :: "music_player \<Rightarrow> music_player" where
  "vc_disconnect p =
     (let p1 = p\<lparr>disconnect_calls := Suc (disconnect_calls p)\<rparr>
      in if vc_is_connected p1 then (vc_stop p1)\<lparr>voice_client := None, paused := False\<rparr>
         else p1)"

subsection \<open>\<^verbatim>\<open>start\<close>, \<^verbatim>\<open>stop\<close>, \<^verbatim>\<open>enqueue\<close> (lines 87-107)\<close>

definition start :: "music_player \<Rightarrow> music_player" where
  "start p =
     (case player_task p of
        None \<Rightarrow> p\<lparr>stopped := False, player_task := Some (Active Created False)\<rparr>
      | Some t \<Rightarrow>
          if task_is_done t
          then p\<lparr>stopped := False, player_task := Some (Active Created False),
                 old_tasks := t # old_tasks p\<rparr>
          else p)"

text \<open>The loop of lines 96-101.  It ends because every round removes an item.\<close>

function drain :: "aqueue \<Rightarrow> error option \<times> aqueue" where
  "drain q =
     (if qempty q then (None, q)
      else case get_nowait q of
             None \<Rightarrow> (None, q)
           | Some (t, q1) \<Rightarrow>
               (case task_done q1 of
                  None \<Rightarrow> (Some ValueError, q1)
                | Some q2 \<Rightarrow> drain q2))"
  by pat_completeness auto
termination
  by (relation "measure (\<lambda>q. length (items q))")
     (auto simp: get_nowait_def task_done_def qempty_def split: list.splits nat.splits)

declare drain.simps [simp del]

text \<open>\<^verbatim>\<open>stop\<close> returns the exception that left it, if any, and the player as it is
  then.  The items that the loop of lines 96-101 removed are the front of the queue.\<close>

definition stop :: "music_player \<Rightarrow> error option \<times> music_player" where
  "stop p =
     (let p1 = p\<lparr>stopped := True\<rparr>;
          p2 = (if vc_is_playing p1 then end_playback p1 else p1);
          (err, q) = drain (queue p2);
          p3 = p2\<lparr>queue := q,
                 dropped := dropped p2
                   @ take (length (items (queue p2)) - length (items q)) (items (queue p2))\<rparr>
      in case err of
           Some e \<Rightarrow> (Some e, p3)
         | None \<Rightarrow>
             (None, case player_task p3 of
                      None \<Rightarrow> p3
                    | Some t \<Rightarrow> p3\<lparr>player_task := Some (cancel t)\<rparr>))"

definition enqueue :: "track \<Rightarrow> music_player \<Rightarrow> music_player" where
  "enqueue t p = start (p\<lparr>queue := put_nowait t (queue p)\<rparr>)"

subsection \<open>\<^verbatim>\<open>_player_loop\<close> (lines 109-132)\<close>

text \<open>
  Line 110 and the call of line 112: the loop condition is evaluated, and the
  coroutine either returns or suspends in \<^verbatim>\<open>wait_for\<close>.  (Since Python 3.12
  \<^verbatim>\<open>wait_for\<close> does not suspend when the queue has an item; the model suspends in
  either case, which only adds interleavings.)
\<close>

definition loop_head :: "music_player \<Rightarrow> music_player" where
  "loop_head p =
     (if stopped p then p\<lparr>player_task := Some (Done Loop_ended)\<rparr>
      else p\<lparr>player_task := Some (Active (Waiting 0) False)\<rparr>)"

text \<open>Lines 130-132: one test of the polling loop, then the sleep or the clean-up.\<close>

definition poll :: "music_player \<Rightarrow> music_player" where
  "poll p =
     (if vc_is_playing p \<and> \<not> stopped p then p\<lparr>player_task := Some (Active Polling False)\<rparr>
      else loop_head (p\<lparr>now_playing := None\<rparr>))"

text \<open>Lines 121-123: the track is dropped.\<close>

definition discard :: "track \<Rightarrow> music_player \<Rightarrow> music_player" where
  "discard t p =
     (let p1 = p\<lparr>dropped := dropped p @ [t]\<rparr>
      in case task_done (queue p1) of
           None \<Rightarrow> p1\<lparr>player_task := Some (Done (Raised ValueError))\<rparr>
         | Some q \<Rightarrow> loop_head (p1\<lparr>queue := q, now_playing := None\<rparr>))"

text \<open>
  Lines 118-132 for a track that \<^verbatim>\<open>wait_for\<close> returned.  \<^verbatim>\<open>vc.play\<close>
  raises while audio is playing, and nothing catches that; it starts the new audio
  when the voice client is idle or paused, and audio that was paused is then left
  behind and never calls its \<^verbatim>\<open>after\<close> function.
\<close>

definition on_track :: "track \<Rightarrow> music_player \<Rightarrow> music_player" where
  "on_track t p =
     (let p1 = p\<lparr>now_playing := Some t\<rparr>
      in case voice_client p1 of
           None \<Rightarrow> discard t p1
         | Some vc \<Rightarrow>
             if \<not> connected vc then discard t p1
             else if playing vc
             then p1\<lparr>dropped := dropped p1 @ [t],
                     player_task := Some (Done (Raised ClientException))\<rparr>
             else poll (p1\<lparr>voice_client := Some (vc\<lparr>playing := True\<rparr>), paused := False,
                           play_calls := play_calls p1 @ [t]\<rparr>))"

text \<open>Lines 113-117: the handler of \<^verbatim>\<open>TimeoutError\<close>.\<close>

definition on_timeout :: "music_player \<Rightarrow> music_player" where
  "on_timeout p =
     (case voice_client p of
        None \<Rightarrow> p\<lparr>player_task := Some (Done Idle_break)\<rparr>
      | Some vc \<Rightarrow>
          if \<not> playing vc
          then (vc_disconnect p)\<lparr>player_task := Some (Active Disconnecting False)\<rparr>
          else p\<lparr>player_task := Some (Done Idle_break)\<rparr>)"

text \<open>
  The event loop resumes the task: a requested cancellation is delivered at the await
  where the task is suspended (or before its first step) and nothing catches it;
  otherwise the coroutine runs up to its next suspension.
\<close>

fun resume :: "pc \<Rightarrow> music_player \<Rightarrow> music_player" where
  "resume Created p = loop_head p"
| "resume (Waiting n) p =
     (case get_nowait (queue p) of
        None \<Rightarrow> p
      | Some (t, q) \<Rightarrow> on_track t (p\<lparr>queue := q\<rparr>))"
| "resume Timed_out p = on_timeout p"
| "resume Disconnecting p = p\<lparr>player_task := Some (Done Idle_break)\<rparr>"
| "resume Polling p = poll p"

definition loop_step :: "music_player \<Rightarrow> music_player" where
  "loop_step p =
     (case player_task p of
        None \<Rightarrow> p
      | Some (Done x) \<Rightarrow> p
      | Some (Active c b) \<Rightarrow>
          if b then p\<lparr>player_task := Some (Done Cancelled)\<rparr> else resume c p)"

text \<open>One unit of time passes.  Only the timeout of line 112 depends on it: after
  300 units with nothing to get, the wait is over.\<close>

definition tick :: "music_player \<Rightarrow> music_player" where
  "tick p =
     (case player_task p of
        Some (Active (Waiting n) b) \<Rightarrow>
          if qempty (queue p)
          then (if 300 \<le> Suc n then p\<lparr>player_task := Some (Active Timed_out b)\<rparr>
                else p\<lparr>player_task := Some (Active (Waiting (Suc n)) b)\<rparr>)
          else p
      | _ \<Rightarrow> p)"

text \<open>The event loop runs one scheduled \<^verbatim>\<open>queue.task_done\<close>; an exception of a
  callback is logged by the event loop and goes nowhere.\<close>

definition after_callback :: "music_player \<Rightarrow> music_player" where
  "after_callback p =
     (case loop_callbacks p of
        0 \<Rightarrow> p
      | Suc k \<Rightarrow>
          (case task_done (queue p) of
             None \<Rightarrow> p\<lparr>loop_callbacks := k\<rparr>
           | Some q \<Rightarrow> p\<lparr>loop_callbacks := k, queue := q\<rparr>))"

subsection \<open>Events and runs\<close>

text \<open>
  What happens to one player.  \<open>Voice_join\<close> is \<^verbatim>\<open>ensure_voice\<close> connecting
  (lines 152-158), \<open>Voice_leave\<close> the command of lines 200-204, \<open>Voice_drop\<close> and
  \<open>Voice_restore\<close> the connection failing and coming back; \<open>Track_end\<close> is the
  audio ending, by itself, by a failure or by the skip command (lines 292-297), and
  carries the error that the audio thread passes to \<^verbatim>\<open>after\<close>, which line 129
  ignores; \<open>Pause\<close> and \<open>Resume\<close> are the commands of lines 302-319, after
  which \<^verbatim>\<open>is_playing()\<close> is false although the audio has not ended, and true
  again.  Audio is started by the loop only.
\<close>

datatype event =
    Enqueue track
  | Start
  | Stop
  | Loop_step
  | Tick
  | After_callback
  | Track_end "string option"
  | Voice_join
  | Voice_leave
  | Voice_drop
  | Voice_restore
  | Pause
  | Resume

fun step :: "event \<Rightarrow> music_player \<Rightarrow> music_player" where
  "step (Enqueue t) p = enqueue t p"
| "step Start p = start p"
| "step Stop p = snd (stop p)"
| "step Loop_step p = loop_step p"
| "step Tick p = tick p"
| "step After_callback p = after_callback p"
| "step (Track_end e) p = end_playback p"
| "step Voice_join p =
     (case voice_client p of
        None \<Rightarrow> p\<lparr>voice_client := Some \<lparr>connected = True, playing = False\<rparr>,
                  paused := False\<rparr>
      | Some vc \<Rightarrow> p)"
| "step Voice_leave p =
     (case voice_client p of None \<Rightarrow> p | Some vc \<Rightarrow> vc_disconnect p)"
| "step Voice_drop p =
     (case voice_client p of
        None \<Rightarrow> p
      | Some vc \<Rightarrow> p\<lparr>voice_client := Some (vc\<lparr>connected := False\<rparr>)\<rparr>)"
| "step Voice_restore p =
     (case voice_client p of
        None \<Rightarrow> p
      | Some vc \<Rightarrow> p\<lparr>voice_client := Some (vc\<lparr>connected := True\<rparr>)\<rparr>)"
| "step Pause p =
     (case voice_client p of
        None \<Rightarrow> p
      | Some vc \<Rightarrow>
          if playing vc
          then p\<lparr>voice_client := Some (vc\<lparr>playing := False\<rparr>), paused := True\<rparr>
          else p)"
| "step Resume p =
     (case voice_client p of
        None \<Rightarrow> p
      | Some vc \<Rightarrow>
          if paused p
          then p\<lparr>voice_client := Some (vc\<lparr>playing := True\<rparr>), paused := False\<rparr>
          else p)"

fun run :: "event list \<Rightarrow> music_player \<Rightarrow> music_player" where
  "run [] p = p"
| "run (e # es) p = run es (step e p)"


subsection \<open>The registry \<^verbatim>\<open>players\<close> and \<^verbatim>\<open>get_player\<close> (lines 136-144)\<close>







subsection \<open>Sample tracks, guilds and runs\<close>

definition trackA :: track where
  "trackA = \<lparr>title = ''A'', url = ''https://example.org/a'',
              stream_url = ''https://cdn.example.org/a'', requester_id = 1\<rparr>"

definition trackB :: track where
  "trackB = \<lparr>title = ''B'', url = ''https://example.org/b'',
              stream_url = ''https://cdn.example.org/b'', requester_id = 2\<rparr>"


definition trackD :: track where
  "trackD = \<lparr>title = ''D'', url = ''https://example.org/d'',
              stream_url = ''https://cdn.example.org/d'', requester_id = 3\<rparr>"

definition in_voice :: guild where
  "in_voice = \<lparr>gid = 42, guild_voice = Some \<lparr>connected = True, playing = False\<rparr>\<rparr>"

definition no_voice :: guild where
  "no_voice = \<lparr>gid = 42, guild_voice = None\<rparr>"


text \<open>A track is played, the player is stopped, the cancelled task ends, and a second
  track is enqueued.\<close>

definition restart_session :: "event list" where
  "restart_session = [Enqueue trackA, Loop_step, Loop_step, Stop, Loop_step, Enqueue trackB, Start]"

text \<open>Two tracks are enqueued and the loop has handed over the first one.\<close>

definition polling_session :: "event list" where
  "polling_session = [Enqueue trackA, Enqueue trackB, Loop_step, Loop_step]"

text \<open>The player is stopped while the first track plays, and the cancelled task is
  resumed.\<close>

definition cancelled_session :: "event list" where
  "cancelled_session = polling_session @ [Stop, Loop_step]"

text \<open>
  \<^verbatim>\<open>stop\<close> is followed at once by \<^verbatim>\<open>enqueue\<close>, and the cancelled task is
  resumed afterwards; and the same two calls with the resumption of the cancelled task
  between them, followed by two resumptions of the new task.
\<close>

definition stranded_session :: "event list" where
  "stranded_session = polling_session @ [Stop, Enqueue trackD, Loop_step]"

definition resumed_session :: "event list" where
  "resumed_session = polling_session @ [Stop, Loop_step, Enqueue trackD, Loop_step, Loop_step]"

text \<open>The loop is started with nothing queued and waits; and a track is enqueued for a
  guild without a voice client.\<close>

definition idle_session :: "event list" where
  "idle_session = [Start, Loop_step]"

definition unheard_session :: "event list" where
  "unheard_session = [Enqueue trackA, Loop_step]"


text \<open>
  Track A is paused, the loop polls, sees no playback and waits for the next track;
  the audio is resumed; track B is enqueued and the loop takes it from the queue.
\<close>

definition pause_resume_session :: "event list" where
  "pause_resume_session =
     [Enqueue trackA, Loop_step, Loop_step, Pause, Loop_step, Resume, Enqueue trackB, Loop_step]"


subsection \<open>Predicates used in the proofs\<close>


text \<open>
  The invariant of every run: the queue's counter covers the queued items, the
  scheduled callbacks and the audio that plays or is paused, never both; a task that
  was not
  cancelled runs with the stop flag clear; the loop never ended by the
  \<^verbatim>\<open>ValueError\<close> of \<^verbatim>\<open>task_done\<close> or by its loop condition; a replaced task
  is done.
\<close>

definition inv :: "music_player \<Rightarrow> bool" where
  "inv p \<longleftrightarrow>
     length (items (queue p)) + loop_callbacks p
         + (if vc_is_playing p \<or> paused p then 1 else 0)
       \<le> unfinished_tasks (queue p)
   \<and> (vc_is_playing p \<longrightarrow> \<not> paused p)
   \<and> (\<forall>c. player_task p = Some (Active c False) \<longrightarrow> \<not> stopped p)
   \<and> player_task p \<noteq> Some (Done (Raised ValueError))
   \<and> player_task p \<noteq> Some (Done Loop_ended)
   \<and> (\<forall>t\<in>set (old_tasks p). task_is_done t)"


text \<open>The number of loop tasks that are not done, among the current task of the
  player and the tasks it has replaced.\<close>

definition active_loops :: "music_player \<Rightarrow> nat" where
  "active_loops p =
     length (filter (\<lambda>t. \<not> task_is_done t)
       (case player_task p of None \<Rightarrow> old_tasks p | Some t \<Rightarrow> t # old_tasks p))"

text \<open>
  No cancellation is pending or was delivered, audio plays only while the loop is
  suspended in the polling sleep, and a track is recorded as playing only then, for
  the track handed over last.
\<close>

definition tidy :: "music_player \<Rightarrow> bool" where
  "tidy p \<longleftrightarrow>
     (\<forall>c. player_task p \<noteq> Some (Active c True))
   \<and> player_task p \<noteq> Some (Done Cancelled)
   \<and> (vc_is_playing p \<longrightarrow> player_task p = Some (Active Polling False))
   \<and> (case now_playing p of
         None \<Rightarrow> True
       | Some t \<Rightarrow> player_task p = Some (Active Polling False) \<and> play_calls p \<noteq> []
           \<and> last (play_calls p) = t)"

text \<open>Audio plays only while the loop is suspended in the polling sleep, and
  \<^verbatim>\<open>vc.play\<close> has not raised.\<close>

definition heard :: "music_player \<Rightarrow> bool" where
  "heard p \<longleftrightarrow>
     (vc_is_playing p \<longrightarrow> player_task p = Some (Active Polling False))
   \<and> player_task p \<noteq> Some (Done (Raised ClientException))"

section \<open>Facts about the queue and the invariant\<close>

lemma drain_all:
  "length (items q) \<le> unfinished_tasks q \<Longrightarrow>
   drain q = (None, \<lparr>items = [], unfinished_tasks = unfinished_tasks q - length (items q)\<rparr>)"
proof (induction q rule: drain.induct)
  case (1 q)
  show ?case
  proof (cases "items q")
    case Nil
    then show ?thesis by (subst drain.simps) (simp add: qempty_def)
  next
    case (Cons t ts)
    with "1.prems" obtain u where u: "unfinished_tasks q = Suc u"
      by (cases "unfinished_tasks q") auto
    have "drain (q\<lparr>items := ts, unfinished_tasks := u\<rparr>) =
          (None, \<lparr>items = [], unfinished_tasks = u - length ts\<rparr>)"
      using "1.IH"[of "(t, q\<lparr>items := ts\<rparr>)" t "q\<lparr>items := ts\<rparr>" "q\<lparr>items := ts, unfinished_tasks := u\<rparr>"]
        "1.prems" Cons u
      by (simp add: qempty_def get_nowait_def task_done_def)
    then show ?thesis
      using Cons u by (subst drain.simps) (simp add: qempty_def get_nowait_def task_done_def)
  qed
qed

lemma inv_new: "\<not> vc_is_playing (new_player g) \<Longrightarrow> inv (new_player g)"
  by (auto simp: inv_def new_player_def vc_is_playing_def)

lemma inv_start: "inv p \<Longrightarrow> inv (start p)"
  by (auto simp: inv_def start_def vc_is_playing_def split: option.splits)

lemma inv_enqueue: "inv p \<Longrightarrow> inv (enqueue t p)"
  by (auto simp: inv_def enqueue_def start_def put_nowait_def vc_is_playing_def split: option.splits)

lemma inv_end_playback: "inv p \<Longrightarrow> inv (end_playback p)"
  by (auto simp: inv_def end_playback_def vc_is_playing_def split: option.splits)

lemma stop_eq:
  assumes "inv p"
  shows "stop p =
    (None, (if vc_is_playing p then end_playback p else p)
       \<lparr>stopped := True,
        queue := \<lparr>items = [],
          unfinished_tasks = unfinished_tasks (queue p) - length (items (queue p))\<rparr>,
        dropped := dropped p @ items (queue p),
        player_task := map_option cancel (player_task p)\<rparr>)"
proof -
  have "length (items (queue p)) \<le> unfinished_tasks (queue p)"
    using assms by (simp add: inv_def)
  then show ?thesis
    by (auto simp: stop_def drain_all end_playback_def vc_is_playing_def Let_def
        split: option.splits)
qed

lemma cancel_Active [simp]: "cancel z \<noteq> Active c False"
  by (cases z) simp_all

lemma cancel_Done [simp]: "cancel z = Done x \<longleftrightarrow> z = Done x"
  by (cases z) auto

lemma inv_stop: "inv p \<Longrightarrow> inv (snd (stop p))"
  apply (simp add: stop_eq)
  apply (auto simp: inv_def end_playback_def vc_is_playing_def split: option.splits)
  done

lemma inv_loop_step: "inv p \<Longrightarrow> inv (loop_step p)"
  apply (auto simp: loop_step_def split: option.splits task.splits)
   apply (auto simp: inv_def vc_is_playing_def split: option.splits)[1]
  subgoal for c
    apply (cases c)
    apply (auto simp: inv_def loop_head_def poll_def discard_def on_track_def on_timeout_def
        vc_disconnect_def vc_stop_def vc_is_connected_def
        get_nowait_def task_done_def vc_is_playing_def Let_def
        split: option.splits list.splits nat.splits if_splits)
    done
  done

lemma inv_tick: "inv p \<Longrightarrow> inv (tick p)"
  by (auto simp: inv_def tick_def vc_is_playing_def split: option.splits task.splits pc.splits)

lemma inv_after_callback: "inv p \<Longrightarrow> inv (after_callback p)"
  by (auto simp: inv_def after_callback_def task_done_def vc_is_playing_def
      split: option.splits nat.splits)

lemma inv_vc_disconnect: "inv p \<Longrightarrow> inv (vc_disconnect p)"
  by (auto simp: inv_def vc_disconnect_def vc_stop_def vc_is_connected_def vc_is_playing_def
      Let_def split: option.splits)

lemma inv_step: "inv p \<Longrightarrow> inv (step e p)"
  by (cases e)
    (auto simp: inv_start inv_enqueue inv_stop inv_loop_step inv_tick inv_after_callback
      inv_end_playback inv_vc_disconnect split: option.splits,
     auto simp: inv_def vc_is_playing_def)

lemma inv_run: "inv p \<Longrightarrow> inv (run es p)"
  by (induction es arbitrary: p) (auto simp: inv_step)

section \<open>Play order\<close>


lemma stop_fields:
  "play_calls (snd (stop p)) = play_calls p"
  "items (queue (snd (stop p))) = items (snd (drain (queue p)))"
  "now_playing (snd (stop p)) = now_playing p"
  "disconnect_calls (snd (stop p)) = disconnect_calls p"
  "old_tasks (snd (stop p)) = old_tasks p"
  "dropped (snd (stop p)) = dropped p
     @ take (length (items (queue p)) - length (items (snd (drain (queue p))))) (items (queue p))"
  by (auto simp: stop_def Let_def end_playback_def vc_is_playing_def
      split: option.splits prod.splits)

lemma run_append: "run (es @ es') p = run es' (run es p)"
  by (induction es arbitrary: p) simp_all










lemma run_unheard:
  "run unheard_session (new_player no_voice) =
     (new_player no_voice)\<lparr>queue := \<lparr>items = [trackA], unfinished_tasks = 1\<rparr>,
        player_task := Some (Active (Waiting 0) False)\<rparr>"
  by (simp add: unheard_session_def new_player_def enqueue_def start_def put_nowait_def
      loop_step_def loop_head_def)


text \<open>
  Where a track leaves the queue without being handed over: in \<^verbatim>\<open>stop\<close>, and at
  a resumption of the waiting loop when the voice client is missing or not connected,
  or reports playback already.
\<close>

lemma dropped_resume:
  assumes "dropped (resume c p) \<noteq> dropped p"
  shows "(\<exists>n. c = Waiting n) \<and> items (queue p) \<noteq> []
     \<and> (\<not> vc_is_connected p \<or> vc_is_playing p)"
  using assms
  by (cases c)
    (auto simp: loop_head_def poll_def discard_def on_track_def on_timeout_def
      vc_disconnect_def vc_stop_def get_nowait_def Let_def vc_is_connected_def vc_is_playing_def
      split: option.splits list.splits if_splits)

lemma dropped_loop_step:
  assumes "dropped (loop_step p) \<noteq> dropped p"
  shows "(\<exists>n. player_task p = Some (Active (Waiting n) False)) \<and> items (queue p) \<noteq> []
     \<and> (\<not> vc_is_connected p \<or> vc_is_playing p)"
proof (cases "player_task p")
  case None
  with assms show ?thesis by (simp add: loop_step_def)
next
  case (Some t)
  show ?thesis
  proof (cases t)
    case (Done x)
    with Some assms show ?thesis by (simp add: loop_step_def)
  next
    case (Active c b)
    with Some assms have b: "\<not> b" by (cases b) (auto simp: loop_step_def)
    with Some Active assms have "dropped (resume c p) \<noteq> dropped p"
      by (simp add: loop_step_def)
    then have "(\<exists>n. c = Waiting n) \<and> items (queue p) \<noteq> []
       \<and> (\<not> vc_is_connected p \<or> vc_is_playing p)"
      by (rule dropped_resume)
    with Some Active b show ?thesis by auto
  qed
qed

lemma dropped_only_at:
  assumes "dropped (step e p) \<noteq> dropped p"
  shows "(e = Stop \<and> items (queue p) \<noteq> [])
     \<or> (e = Loop_step \<and> (\<exists>n. player_task p = Some (Active (Waiting n) False))
          \<and> items (queue p) \<noteq> [] \<and> (\<not> vc_is_connected p \<or> vc_is_playing p))"
proof (cases e)
  case Stop
  with assms have "items (queue p) \<noteq> []" by (auto simp: stop_fields)
  with Stop show ?thesis by simp
next
  case Loop_step
  with assms have "dropped (loop_step p) \<noteq> dropped p" by simp
  then show ?thesis using Loop_step dropped_loop_step by blast
qed (use assms in \<open>auto simp: enqueue_def start_def tick_def after_callback_def
      end_playback_def vc_disconnect_def vc_stop_def Let_def
      split: option.splits task.splits pc.splits nat.splits if_splits\<close>)




section \<open>One loop task at a time\<close>

lemma old_tasks_loop_step: "old_tasks (loop_step p) = old_tasks p"
proof (cases "player_task p")
  case None
  then show ?thesis by (simp add: loop_step_def)
next
  case (Some t)
  show ?thesis
  proof (cases t)
    case (Done x)
    with Some show ?thesis by (simp add: loop_step_def)
  next
    case (Active c b)
    have "old_tasks (resume c p) = old_tasks p"
      by (cases c)
        (auto simp: loop_head_def poll_def discard_def on_track_def on_timeout_def
          vc_disconnect_def vc_stop_def get_nowait_def task_done_def Let_def
          split: option.splits list.splits nat.splits)
    with Some Active show ?thesis by (simp add: loop_step_def)
  qed
qed

lemma old_tasks_step:
  "\<forall>t\<in>set (old_tasks p). task_is_done t \<Longrightarrow> \<forall>t\<in>set (old_tasks (step e p)). task_is_done t"
  by (cases e)
    (auto simp: old_tasks_loop_step stop_fields enqueue_def start_def tick_def after_callback_def
      end_playback_def vc_disconnect_def vc_stop_def Let_def
      split: option.splits task.splits pc.splits nat.splits if_splits)

lemma old_tasks_run:
  "\<forall>t\<in>set (old_tasks p). task_is_done t \<Longrightarrow> \<forall>t\<in>set (old_tasks (run es p)). task_is_done t"
proof (induction es arbitrary: p)
  case Nil
  then show ?case by simp
next
  case (Cons e es)
  from Cons.prems have "\<forall>t\<in>set (old_tasks (step e p)). task_is_done t"
    by (rule old_tasks_step)
  then show ?case using Cons.IH by simp
qed

lemma active_loops_le:
  assumes "\<forall>t\<in>set (old_tasks p). task_is_done t"
  shows "active_loops p \<le> 1"
proof -
  from assms have "filter (\<lambda>t. \<not> task_is_done t) (old_tasks p) = []"
    by (simp add: filter_empty_conv)
  then show ?thesis by (simp add: active_loops_def split: option.splits)
qed

lemma start_active:
  assumes "\<forall>t\<in>set (old_tasks p). task_is_done t" "active_loops p = 1"
  shows "start p = p"
proof -
  from assms(1) have "filter (\<lambda>t. \<not> task_is_done t) (old_tasks p) = []"
    by (simp add: filter_empty_conv)
  with assms(2) obtain t where "player_task p = Some t" "\<not> task_is_done t"
    by (auto simp: active_loops_def split: option.splits if_splits)
  then show ?thesis by (simp add: start_def)
qed

text \<open>
  Claim C4.  In every run of a new player at most one loop task is active, counting
  the tasks that \<^verbatim>\<open>_player_task\<close> no longer refers to; and while one is active,
  \<^verbatim>\<open>start\<close> changes nothing.
\<close>

theorem single_loop:
  "active_loops (run es (new_player g)) \<le> 1
   \<and> (active_loops (run es (new_player g)) = 1
      \<longrightarrow> start (run es (new_player g)) = run es (new_player g))"
proof -
  have "\<forall>t\<in>set (old_tasks (new_player g)). task_is_done t"
    by (simp add: new_player_def)
  then have "\<forall>t\<in>set (old_tasks (run es (new_player g))). task_is_done t"
    by (rule old_tasks_run)
  then show ?thesis using active_loops_le start_active by blast
qed

lemma run_restart:
  "run restart_session (new_player in_voice) =
     (new_player in_voice)\<lparr>
        voice_client := Some \<lparr>connected = True, playing = False\<rparr>,
        queue := \<lparr>items = [trackB], unfinished_tasks = 2\<rparr>,
        now_playing := Some trackA,
        player_task := Some (Active Created False),
        old_tasks := [Done Cancelled], loop_callbacks := 1,
        play_calls := [trackA]\<rparr>"
  by (simp add: restart_session_def new_player_def in_voice_def enqueue_def start_def
      put_nowait_def loop_step_def loop_head_def get_nowait_def on_track_def poll_def
      vc_is_playing_def end_playback_def stop_def drain.simps qempty_def Let_def)

text \<open>After a stop and a restart the replaced task is done and the new one is the only
  active one.\<close>

theorem single_loop_witness:
  "active_loops (run restart_session (new_player in_voice)) = 1
   \<and> start (run restart_session (new_player in_voice)) = run restart_session (new_player in_voice)"
proof -
  have a: "active_loops (run restart_session (new_player in_voice)) = 1"
    unfolding run_restart by (simp add: active_loops_def new_player_def)
  with single_loop[of restart_session in_voice] show ?thesis by blast
qed

section \<open>The track recorded as playing\<close>

lemma tidy_loop_head:
  "now_playing p = None \<Longrightarrow> \<not> vc_is_playing p \<Longrightarrow> tidy (loop_head p)"
  by (simp add: tidy_def loop_head_def vc_is_playing_def)

lemma tidy_poll:
  assumes "tidy p" "\<not> stopped p" "player_task p = Some (Active Polling False)"
  shows "tidy (poll p)"
  using assms
  by (auto simp: tidy_def poll_def loop_head_def vc_is_playing_def split: option.splits)

lemma tidy_on_track:
  assumes "0 < unfinished_tasks (queue p)" "\<not> vc_is_playing p" "\<not> stopped p"
  shows "tidy (on_track t p)"
  using assms
  by (auto simp: tidy_def on_track_def discard_def poll_def loop_head_def task_done_def
      vc_is_playing_def Let_def split: option.splits nat.splits)

lemma tidy_on_timeout:
  "now_playing p = None \<Longrightarrow> \<not> vc_is_playing p \<Longrightarrow> tidy (on_timeout p)"
  by (auto simp: tidy_def on_timeout_def vc_disconnect_def vc_stop_def vc_is_playing_def Let_def
      split: option.splits)

lemma tidy_resume:
  assumes "inv p" "tidy p" "player_task p = Some (Active c False)"
  shows "tidy (resume c p)"
proof -
  have ns: "\<not> stopped p" using assms(1,3) by (simp add: inv_def)
  have np: "now_playing p = None" if "c \<noteq> Polling"
    using assms(2,3) that by (cases "now_playing p") (auto simp: tidy_def)
  have pl: "\<not> vc_is_playing p" if "c \<noteq> Polling"
    using assms(2,3) that by (auto simp: tidy_def)
  show ?thesis
  proof (cases c)
    case Created
    then show ?thesis using np pl by (simp add: tidy_loop_head)
  next
    case (Waiting n)
    show ?thesis
    proof (cases "items (queue p)")
      case Nil
      with Waiting assms(2) show ?thesis by (simp add: get_nowait_def)
    next
      case (Cons t ts)
      have "0 < unfinished_tasks (queue p)" using assms(1) Cons by (simp add: inv_def)
      then have "tidy (on_track t (p\<lparr>queue := queue p\<lparr>items := ts\<rparr>\<rparr>))"
        using pl ns Waiting by (intro tidy_on_track) (simp_all add: vc_is_playing_def)
      with Waiting Cons show ?thesis by (simp add: get_nowait_def)
    qed
  next
    case Timed_out
    then show ?thesis using np pl by (simp add: tidy_on_timeout)
  next
    case Disconnecting
    then show ?thesis using np pl by (simp add: tidy_def vc_is_playing_def)
  next
    case Polling
    then show ?thesis using assms ns by (simp add: tidy_poll)
  qed
qed

lemma tidy_loop_step:
  assumes "inv p" "tidy p"
  shows "tidy (loop_step p)"
proof (cases "player_task p")
  case None
  with assms show ?thesis by (simp add: loop_step_def)
next
  case (Some t)
  show ?thesis
  proof (cases t)
    case (Done x)
    with Some assms show ?thesis by (simp add: loop_step_def)
  next
    case (Active c b)
    with Some assms(2) have b: "\<not> b" by (cases b) (auto simp: tidy_def)
    with Some Active assms tidy_resume[of p c] show ?thesis by (simp add: loop_step_def)
  qed
qed

lemma tidy_start: "tidy p \<Longrightarrow> tidy (start p)"
  by (cases "now_playing p")
    (auto simp: tidy_def start_def vc_is_playing_def split: option.splits)

lemma tidy_enqueue: "tidy p \<Longrightarrow> tidy (enqueue t p)"
proof -
  assume "tidy p"
  then have "tidy (p\<lparr>queue := put_nowait t (queue p)\<rparr>)"
    by (simp add: tidy_def vc_is_playing_def split: option.splits)
  then show ?thesis unfolding enqueue_def by (rule tidy_start)
qed

lemma tidy_tick: "tidy p \<Longrightarrow> tidy (tick p)"
  by (cases "now_playing p")
    (auto simp: tidy_def tick_def vc_is_playing_def split: option.splits task.splits pc.splits)

lemma tidy_after_callback: "tidy p \<Longrightarrow> tidy (after_callback p)"
  by (cases "now_playing p")
    (auto simp: tidy_def after_callback_def vc_is_playing_def split: option.splits nat.splits)

lemma tidy_end_playback: "tidy p \<Longrightarrow> tidy (end_playback p)"
  by (cases "now_playing p")
    (auto simp: tidy_def end_playback_def vc_is_playing_def split: option.splits)

lemma tidy_vc_disconnect: "tidy p \<Longrightarrow> tidy (vc_disconnect p)"
  by (cases "now_playing p")
    (auto simp: tidy_def vc_disconnect_def vc_stop_def vc_is_playing_def Let_def
      split: option.splits)

lemma tidy_step:
  assumes "inv p" "tidy p" "e \<noteq> Stop" "e \<noteq> Resume"
  shows "tidy (step e p)"
proof (cases e)
  case Loop_step
  with assms show ?thesis by (simp add: tidy_loop_step)
next
  case (Enqueue t)
  with assms show ?thesis by (simp add: tidy_enqueue)
next
  case Voice_leave
  with assms show ?thesis by (simp add: tidy_vc_disconnect split: option.splits)
qed (use assms in \<open>auto simp: tidy_start tidy_tick tidy_after_callback tidy_end_playback\<close>,
     (cases "now_playing p"; auto simp: tidy_def vc_is_playing_def split: option.splits)+)

lemma tidy_run:
  "inv p \<Longrightarrow> tidy p \<Longrightarrow> Stop \<notin> set es \<Longrightarrow> Resume \<notin> set es \<Longrightarrow> tidy (run es p)"
proof (induction es arbitrary: p)
  case Nil
  then show ?case by simp
next
  case (Cons e es)
  from Cons.prems have n: "e \<noteq> Stop" "Stop \<notin> set es" "e \<noteq> Resume" "Resume \<notin> set es"
    by auto
  with Cons.prems have "inv (step e p)" "tidy (step e p)"
    by (simp_all add: inv_step tidy_step)
  with Cons.IH n show ?case by simp
qed

lemma tidy_new: "\<not> vc_is_playing (new_player g) \<Longrightarrow> tidy (new_player g)"
  by (simp add: tidy_def) (simp add: new_player_def)

lemma run_polling:
  "run polling_session (new_player in_voice) =
     (new_player in_voice)\<lparr>
        voice_client := Some \<lparr>connected = True, playing = True\<rparr>,
        queue := \<lparr>items = [trackB], unfinished_tasks = 2\<rparr>,
        now_playing := Some trackA,
        player_task := Some (Active Polling False),
        play_calls := [trackA]\<rparr>"
  by (simp add: polling_session_def new_player_def in_voice_def enqueue_def start_def
      put_nowait_def loop_step_def loop_head_def get_nowait_def on_track_def poll_def
      vc_is_playing_def)

text \<open>
  Claim C3, as amended.  In every run of a new player in which neither \<^verbatim>\<open>stop\<close>
  nor the resume command is called, \<^verbatim>\<open>now_playing\<close> is set only while the loop
  task is suspended in the polling sleep of line 131, and it is then the track handed
  to the voice client last.  At every other moment of such a run (the loop waits for a
  track, has dropped a track for want of a live connection, or has seen that the
  voice client reports no playback) it is empty.
\<close>

theorem now_playing_only_while_polling:
  assumes "\<not> vc_is_playing (new_player g)" "Stop \<notin> set es" "Resume \<notin> set es"
    "now_playing (run es (new_player g)) = Some t"
  shows "player_task (run es (new_player g)) = Some (Active Polling False)
     \<and> play_calls (run es (new_player g)) \<noteq> []
     \<and> last (play_calls (run es (new_player g))) = t"
proof -
  have "inv (new_player g)" using assms(1) by (rule inv_new)
  moreover have "tidy (new_player g)" using assms(1) by (rule tidy_new)
  ultimately have "tidy (run es (new_player g))"
    using assms(2,3) by (rule tidy_run)
  with assms(4) show ?thesis by (simp add: tidy_def)
qed

text \<open>Track A plays, B is queued, and the loop polls.\<close>

theorem now_playing_only_while_polling_witness:
  "\<not> vc_is_playing (new_player in_voice) \<and> Stop \<notin> set polling_session
   \<and> Resume \<notin> set polling_session
   \<and> now_playing (run polling_session (new_player in_voice)) = Some trackA
   \<and> player_task (run polling_session (new_player in_voice)) = Some (Active Polling False)
   \<and> play_calls (run polling_session (new_player in_voice)) \<noteq> []
   \<and> last (play_calls (run polling_session (new_player in_voice))) = trackA"
proof -
  have a: "\<not> vc_is_playing (new_player in_voice)"
    by (simp add: vc_is_playing_def new_player_def in_voice_def)
  have b: "Stop \<notin> set polling_session" "Resume \<notin> set polling_session"
    by (simp_all add: polling_session_def)
  have c: "now_playing (run polling_session (new_player in_voice)) = Some trackA"
    unfolding run_polling by simp
  from now_playing_only_while_polling[OF a b c] a b c show ?thesis by simp
qed

text \<open>
  Claim C3 as stated fails: when the audio has ended and the loop has not polled
  again yet, \<^verbatim>\<open>now_playing\<close> is still set although the voice client reports no
  playback.
\<close>

theorem now_playing_after_track_end:
  "now_playing (run (polling_session @ [Track_end None]) (new_player in_voice)) \<noteq> None
   \<and> \<not> vc_is_playing (run (polling_session @ [Track_end None]) (new_player in_voice))"
  unfolding run_append run_polling
  by (simp add: end_playback_def vc_is_playing_def new_player_def)

section \<open>How the loop ends\<close>

text \<open>When the audio of a connected voice client ends, for whatever reason, while
  another track is queued, the next two resumptions of the loop hand over that track.\<close>

lemma advance_after_end:
  assumes "player_task p = Some (Active Polling False)" "\<not> stopped p"
    "vc_is_playing p" "vc_is_connected p" "items (queue p) = x # xs"
  shows "player_task (run [Track_end err, Loop_step, Loop_step] p) = Some (Active Polling False)
     \<and> play_calls (run [Track_end err, Loop_step, Loop_step] p) = play_calls p @ [x]
     \<and> items (queue (run [Track_end err, Loop_step, Loop_step] p)) = xs
     \<and> now_playing (run [Track_end err, Loop_step, Loop_step] p) = Some x"
proof -
  from assms(3,4) obtain vc where vc: "voice_client p = Some vc" "playing vc" "connected vc"
    by (auto simp: vc_is_playing_def vc_is_connected_def split: option.splits)
  define p1 where "p1 = p\<lparr>voice_client := Some (vc\<lparr>playing := False\<rparr>),
    loop_callbacks := Suc (loop_callbacks p)\<rparr>"
  have 1: "end_playback p = p1"
    using vc by (simp add: end_playback_def p1_def)
  define p2 where "p2 = p1\<lparr>now_playing := None, player_task := Some (Active (Waiting 0) False)\<rparr>"
  have 2: "loop_step p1 = p2"
    using assms(1,2) vc
    by (simp add: loop_step_def poll_def loop_head_def vc_is_playing_def p1_def p2_def)
  have 3: "loop_step p2 =
    p2\<lparr>queue := queue p\<lparr>items := xs\<rparr>, now_playing := Some x,
       voice_client := Some (vc\<lparr>playing := True\<rparr>), paused := False,
       play_calls := play_calls p @ [x],
       player_task := Some (Active Polling False)\<rparr>"
    using assms(2,5) vc
    by (simp add: loop_step_def get_nowait_def on_track_def poll_def vc_is_playing_def
        p1_def p2_def)
  have "run [Track_end err, Loop_step, Loop_step] p = loop_step p2"
    by (simp add: 1 2)
  then show ?thesis by (simp only: 3) simp
qed

lemma stop_polling:
  "snd (stop (run polling_session (new_player in_voice))) =
     (new_player in_voice)\<lparr>
        voice_client := Some \<lparr>connected = True, playing = False\<rparr>,
        queue := \<lparr>items = [], unfinished_tasks = 1\<rparr>,
        now_playing := Some trackA,
        player_task := Some (Active Polling True),
        stopped := True, loop_callbacks := 1,
        play_calls := [trackA], dropped := [trackB]\<rparr>"
proof -
  have "inv (run polling_session (new_player in_voice))"
    by (intro inv_run inv_new) (simp add: vc_is_playing_def new_player_def in_voice_def)
  then show ?thesis
    unfolding run_polling
    by (simp add: stop_eq) (simp add: end_playback_def vc_is_playing_def new_player_def)
qed

lemma run_cancelled:
  "run cancelled_session (new_player in_voice) =
     (new_player in_voice)\<lparr>
        voice_client := Some \<lparr>connected = True, playing = False\<rparr>,
        queue := \<lparr>items = [], unfinished_tasks = 1\<rparr>,
        now_playing := Some trackA,
        player_task := Some (Done Cancelled),
        stopped := True, loop_callbacks := 1,
        play_calls := [trackA], dropped := [trackB]\<rparr>"
proof -
  have "run cancelled_session (new_player in_voice)
      = loop_step (snd (stop (run polling_session (new_player in_voice))))"
    by (simp add: cancelled_session_def run_append)
  then show ?thesis by (simp only: stop_polling) (simp add: loop_step_def)
qed

text \<open>In a run without the resume command the loop task never ends by an
  exception.\<close>

lemma heard_resume:
  assumes "inv p" "heard p" "player_task p = Some (Active c False)"
  shows "heard (resume c p)"
proof -
  have ns: "\<not> stopped p" using assms(1,3) by (simp add: inv_def)
  have pl: "\<not> vc_is_playing p" if "c \<noteq> Polling"
    using assms(2,3) that by (auto simp: heard_def)
  show ?thesis
  proof (cases c)
    case Created
    then show ?thesis using pl ns by (simp add: heard_def loop_head_def vc_is_playing_def)
  next
    case (Waiting n)
    then have "\<not> vc_is_playing p" using pl by simp
    then show ?thesis
      using Waiting ns assms(2,3)
      by (auto simp: heard_def get_nowait_def on_track_def discard_def poll_def loop_head_def
          vc_is_playing_def Let_def split: option.splits list.splits)
  next
    case Timed_out
    then have "\<not> vc_is_playing p" using pl by simp
    then show ?thesis
      using Timed_out
      by (auto simp: heard_def on_timeout_def vc_disconnect_def vc_stop_def vc_is_playing_def
          Let_def split: option.splits)
  next
    case Disconnecting
    then have "\<not> vc_is_playing p" using pl by simp
    with Disconnecting show ?thesis by (simp add: heard_def vc_is_playing_def)
  next
    case Polling
    then show ?thesis
      using ns assms(2,3)
      by (auto simp: heard_def poll_def loop_head_def vc_is_playing_def split: option.splits)
  qed
qed

lemma heard_loop_step:
  assumes "inv p" "heard p"
  shows "heard (loop_step p)"
proof (cases "player_task p")
  case None
  with assms show ?thesis by (simp add: loop_step_def)
next
  case (Some t)
  show ?thesis
  proof (cases t)
    case (Done x)
    with Some assms show ?thesis by (simp add: loop_step_def)
  next
    case (Active c b)
    show ?thesis
    proof (cases b)
      case True
      with Some Active assms(2) show ?thesis
        by (auto simp: loop_step_def heard_def vc_is_playing_def)
    next
      case False
      with Some Active assms heard_resume[of p c] show ?thesis by (simp add: loop_step_def)
    qed
  qed
qed

lemma heard_stop:
  assumes "inv p" "heard p"
  shows "heard (snd (stop p))"
proof (cases "player_task p")
  case None
  with assms show ?thesis
    by (auto simp: stop_eq heard_def end_playback_def vc_is_playing_def split: option.splits)
next
  case (Some t)
  with assms show ?thesis
    by (cases t)
      (auto simp: stop_eq heard_def end_playback_def vc_is_playing_def split: option.splits)
qed

lemma heard_start: "heard p \<Longrightarrow> heard (start p)"
  by (auto simp: heard_def start_def vc_is_playing_def split: option.splits)

lemma heard_step:
  assumes "inv p" "heard p" "e \<noteq> Resume"
  shows "heard (step e p)"
proof (cases e)
  case Loop_step
  with assms show ?thesis by (simp add: heard_loop_step)
next
  case Stop
  with assms show ?thesis by (simp add: heard_stop)
next
  case (Enqueue t)
  from assms(2) have "heard (p\<lparr>queue := put_nowait t (queue p)\<rparr>)"
    by (simp add: heard_def vc_is_playing_def)
  then show ?thesis using Enqueue by (simp add: enqueue_def heard_start)
next
  case Start
  with assms show ?thesis by (simp add: heard_start)
qed (use assms in \<open>auto simp: heard_def tick_def after_callback_def end_playback_def
      vc_disconnect_def vc_stop_def vc_is_playing_def Let_def
      split: option.splits task.splits pc.splits nat.splits\<close>)

lemma heard_run: "inv p \<Longrightarrow> heard p \<Longrightarrow> Resume \<notin> set es \<Longrightarrow> heard (run es p)"
proof (induction es arbitrary: p)
  case Nil
  then show ?case by simp
next
  case (Cons e es)
  from Cons.prems have n: "e \<noteq> Resume" "Resume \<notin> set es" by auto
  with Cons.prems have "inv (step e p)" "heard (step e p)"
    by (simp_all add: inv_step heard_step)
  with Cons.IH n show ?case by simp
qed

lemma no_exception_without_resume:
  assumes "\<not> vc_is_playing (new_player g)" "Resume \<notin> set es"
  shows "player_task (run es (new_player g)) \<noteq> Some (Done (Raised x))"
proof -
  have i: "inv (new_player g)" using assms(1) by (rule inv_new)
  have "heard (new_player g)" using assms(1) by (simp add: heard_def) (simp add: new_player_def)
  with i have "heard (run es (new_player g))" using assms(2) by (rule heard_run)
  moreover from i have "inv (run es (new_player g))" by (rule inv_run)
  ultimately show ?thesis by (cases x) (simp_all add: heard_def inv_def)
qed

lemma run_pause_resume:
  "run pause_resume_session (new_player in_voice) =
     (new_player in_voice)\<lparr>
        voice_client := Some \<lparr>connected = True, playing = True\<rparr>,
        queue := \<lparr>items = [], unfinished_tasks = 2\<rparr>,
        now_playing := Some trackB,
        player_task := Some (Done (Raised ClientException)),
        play_calls := [trackA], dropped := [trackB]\<rparr>"
  by (simp add: pause_resume_session_def new_player_def in_voice_def enqueue_def start_def
      put_nowait_def loop_step_def loop_head_def get_nowait_def on_track_def poll_def
      vc_is_playing_def)

text \<open>
  Claim C8 fails on the code.  The loop takes a paused voice client for one that has
  finished: after the pause command the poll of line 130 sees no playback and the loop
  waits for the next track.  When the audio is resumed and track B is enqueued, the
  loop takes B from the queue and \<^verbatim>\<open>vc.play\<close> raises at line 129: the loop task
  ends by an exception, with no \<^verbatim>\<open>stop\<close> and no time passed, B is never handed
  over and stays recorded as playing.
\<close>

theorem play_after_resume_ends_loop:
  "player_task (run pause_resume_session (new_player in_voice))
     = Some (Done (Raised ClientException))
   \<and> Stop \<notin> set pause_resume_session
   \<and> count_list pause_resume_session Tick = 0
   \<and> play_calls (run pause_resume_session (new_player in_voice)) = [trackA]
   \<and> items (queue (run pause_resume_session (new_player in_voice))) = []
   \<and> now_playing (run pause_resume_session (new_player in_voice)) = Some trackB"
  unfolding run_pause_resume by (simp add: pause_resume_session_def)

section \<open>Stopping\<close>

lemma stop_drains: "inv p \<Longrightarrow> fst (stop p) = None \<and> items (queue (snd (stop p))) = []"
  by (simp add: stop_eq)

lemma stop_twice: "inv p \<Longrightarrow> snd (stop (snd (stop p))) = snd (stop p)"
proof -
  assume i: "inv p"
  then have i2: "inv (snd (stop p))" by (rule inv_stop)
  have c: "map_option cancel (map_option cancel t) = map_option cancel t" for t
    by (cases t; simp) (metis cancel.elims cancel.simps)
  show ?thesis
    unfolding stop_eq[OF i2]
    by (simp add: stop_eq[OF i] c vc_is_playing_def end_playback_def split: option.splits)
qed

text \<open>
  Claim C2 fails on the code.  \<^verbatim>\<open>stop\<close> empties the queue and a second
  \<^verbatim>\<open>stop\<close> changes nothing (the two lemmas above), but it does not clear
  \<^verbatim>\<open>now_playing\<close>: called while track A plays with B queued, it returns with the
  queue empty, the audio halted and \<^verbatim>\<open>now_playing\<close> still A; the cancellation
  then ends the loop task at its sleep, before line 132, so that A stays recorded.
\<close>

theorem stop_keeps_now_playing:
  "fst (stop (run polling_session (new_player in_voice))) = None
   \<and> items (queue (snd (stop (run polling_session (new_player in_voice))))) = []
   \<and> \<not> vc_is_playing (snd (stop (run polling_session (new_player in_voice))))
   \<and> now_playing (snd (stop (run polling_session (new_player in_voice)))) = Some trackA
   \<and> player_task (run cancelled_session (new_player in_voice)) = Some (Done Cancelled)
   \<and> now_playing (run cancelled_session (new_player in_voice)) = Some trackA"
proof -
  have "inv (run polling_session (new_player in_voice))"
    by (intro inv_run inv_new) (simp add: vc_is_playing_def new_player_def in_voice_def)
  then have "fst (stop (run polling_session (new_player in_voice))) = None"
    by (simp add: stop_eq)
  then show ?thesis
    unfolding run_cancelled stop_polling by (simp add: vc_is_playing_def)
qed

section \<open>Stop followed by enqueue\<close>

lemma loop_step_done: "player_task p = Some (Done r) \<Longrightarrow> loop_step p = p"
  by (simp add: loop_step_def)

lemma loop_steps_done: "player_task p = Some (Done r) \<Longrightarrow> run (replicate k Loop_step) p = p"
  by (induction k) (simp_all add: loop_step_done)

lemma run_stranded:
  "run stranded_session (new_player in_voice) =
     (new_player in_voice)\<lparr>
        voice_client := Some \<lparr>connected = True, playing = False\<rparr>,
        queue := \<lparr>items = [trackD], unfinished_tasks = 2\<rparr>,
        now_playing := Some trackA,
        player_task := Some (Done Cancelled),
        stopped := True, loop_callbacks := 1,
        play_calls := [trackA], dropped := [trackB]\<rparr>"
proof -
  have "run stranded_session (new_player in_voice)
      = loop_step (enqueue trackD (snd (stop (run polling_session (new_player in_voice)))))"
    by (simp add: stranded_session_def run_append)
  then show ?thesis
    by (simp only: stop_polling)
      (simp add: loop_step_def enqueue_def start_def put_nowait_def new_player_def)
qed

lemma run_resumed:
  "run resumed_session (new_player in_voice) =
     (new_player in_voice)\<lparr>
        voice_client := Some \<lparr>connected = True, playing = True\<rparr>,
        queue := \<lparr>items = [], unfinished_tasks = 2\<rparr>,
        now_playing := Some trackD,
        player_task := Some (Active Polling False),
        stopped := False, old_tasks := [Done Cancelled], loop_callbacks := 1,
        play_calls := [trackA, trackD], dropped := [trackB]\<rparr>"
proof -
  have "run resumed_session (new_player in_voice)
      = loop_step (loop_step (enqueue trackD (run cancelled_session (new_player in_voice))))"
    by (simp add: resumed_session_def cancelled_session_def run_append)
  then show ?thesis
    by (simp only: run_cancelled)
      (simp add: loop_step_def enqueue_def start_def put_nowait_def new_player_def
        loop_head_def get_nowait_def on_track_def poll_def vc_is_playing_def)
qed

text \<open>
  Claim C9 fails on the code.  When \<^verbatim>\<open>enqueue\<close> follows \<^verbatim>\<open>stop\<close> before the
  cancelled task was resumed, \<^verbatim>\<open>start\<close> finds a task that is not done and starts
  nothing: track D stays in the queue, no loop is active, and however often the loop
  task is resumed D is neither played nor dropped.  When the cancelled task is resumed
  between the two calls, \<^verbatim>\<open>enqueue\<close> starts a new loop and D is played.
\<close>

theorem stop_then_enqueue_depends_on_schedule:
  "play_calls (run (stranded_session @ replicate k Loop_step) (new_player in_voice)) = [trackA]
   \<and> items (queue (run (stranded_session @ replicate k Loop_step) (new_player in_voice))) = [trackD]
   \<and> active_loops (run (stranded_session @ replicate k Loop_step) (new_player in_voice)) = 0
   \<and> play_calls (run resumed_session (new_player in_voice)) = [trackA, trackD]
   \<and> active_loops (run resumed_session (new_player in_voice)) = 1"
proof -
  have "player_task (run stranded_session (new_player in_voice)) = Some (Done Cancelled)"
    unfolding run_stranded by simp
  then have "run (stranded_session @ replicate k Loop_step) (new_player in_voice)
      = run stranded_session (new_player in_voice)"
    unfolding run_append by (rule loop_steps_done)
  then show ?thesis
    by (simp only: run_resumed run_stranded) (simp add: active_loops_def new_player_def)
qed

section \<open>The idle timeout\<close>

lemma run_ticks:
  assumes "player_task p = Some (Active (Waiting n) b)" "qempty (queue p)" "n + k < 300"
  shows "run (replicate k Tick) p = p\<lparr>player_task := Some (Active (Waiting (n + k)) b)\<rparr>"
  using assms
proof (induction k arbitrary: p n)
  case 0
  then show ?case by simp
next
  case (Suc k)
  have "tick p = p\<lparr>player_task := Some (Active (Waiting (Suc n)) b)\<rparr>"
    using Suc.prems by (simp add: tick_def)
  moreover have "run (replicate k Tick) (p\<lparr>player_task := Some (Active (Waiting (Suc n)) b)\<rparr>)
      = p\<lparr>player_task := Some (Active (Waiting (Suc n + k)) b)\<rparr>"
    using Suc.IH[of "p\<lparr>player_task := Some (Active (Waiting (Suc n)) b)\<rparr>" "Suc n"] Suc.prems
    by simp
  ultimately show ?case by simp
qed

lemma run_timeout:
  assumes "player_task p = Some (Active (Waiting n) b)" "qempty (queue p)" "n < 300"
  shows "run (replicate (300 - n) Tick) p = p\<lparr>player_task := Some (Active Timed_out b)\<rparr>"
proof -
  have m: "300 - n = Suc (299 - n)" "n + (299 - n) = 299"
    using assms(3) by simp_all
  have "replicate (Suc (299 - n)) Tick = replicate (299 - n) Tick @ [Tick]"
    by (simp add: replicate_append_same)
  then have "run (replicate (300 - n) Tick) p = tick (run (replicate (299 - n) Tick) p)"
    by (simp only: m run_append) simp
  also have "run (replicate (299 - n) Tick) p = p\<lparr>player_task := Some (Active (Waiting 299) b)\<rparr>"
    using run_ticks[OF assms(1,2), of "299 - n"] m by simp
  also have "tick (p\<lparr>player_task := Some (Active (Waiting 299) b)\<rparr>)
      = p\<lparr>player_task := Some (Active Timed_out b)\<rparr>"
    using assms(2) by (simp add: tick_def)
  finally show ?thesis .
qed

text \<open>
  Claim C5.  A loop that has waited \<open>n\<close> units of time with an empty queue and no
  audio playing keeps waiting as long as fewer than 300 units have passed; when the
  300 units are over and the task is resumed (twice, the second time after the
  disconnect), it has left the loop through the \<^verbatim>\<open>break\<close>, and the voice client
  has received exactly one more \<^verbatim>\<open>disconnect\<close> call when there is a voice client,
  none when there is none.  A later \<^verbatim>\<open>enqueue\<close> creates a new loop task.
\<close>

theorem idle_timeout:
  assumes "player_task p = Some (Active (Waiting n) False)" "n < 300" "qempty (queue p)"
    "\<not> vc_is_playing p"
  shows "(\<forall>k. n + k < 300 \<longrightarrow>
            player_task (run (replicate k Tick) p) = Some (Active (Waiting (n + k)) False))
     \<and> player_task (run (replicate (300 - n) Tick @ [Loop_step, Loop_step]) p)
         = Some (Done Idle_break)
     \<and> disconnect_calls (run (replicate (300 - n) Tick @ [Loop_step, Loop_step]) p)
         = disconnect_calls p + (if voice_client p = None then 0 else 1)
     \<and> (vc_is_connected p \<longrightarrow>
          voice_client (run (replicate (300 - n) Tick @ [Loop_step, Loop_step]) p) = None)
     \<and> player_task (enqueue t (run (replicate (300 - n) Tick @ [Loop_step, Loop_step]) p))
         = Some (Active Created False)
     \<and> \<not> stopped (enqueue t (run (replicate (300 - n) Tick @ [Loop_step, Loop_step]) p))
     \<and> items (queue (enqueue t (run (replicate (300 - n) Tick @ [Loop_step, Loop_step]) p)))
         = [t]"
proof -
  let ?q = "p\<lparr>player_task := Some (Active Timed_out False)\<rparr>"
  let ?r = "run (replicate (300 - n) Tick @ [Loop_step, Loop_step]) p"
  have a: "player_task (run (replicate k Tick) p) = Some (Active (Waiting (n + k)) False)"
    if "n + k < 300" for k
    using run_ticks[OF assms(1,3) that] by simp
  have r: "?r = loop_step (loop_step ?q)"
    using run_timeout[OF assms(1,3,2)] by (simp add: run_append)
  have e: "items (queue p) = []" using assms(3) by (simp add: qempty_def)
  have "player_task ?r = Some (Done Idle_break)
     \<and> disconnect_calls ?r = disconnect_calls p + (if voice_client p = None then 0 else 1)
     \<and> (vc_is_connected p \<longrightarrow> voice_client ?r = None)
     \<and> items (queue ?r) = []"
  proof (cases "voice_client p")
    case None
    then show ?thesis
      unfolding r using e
      by (simp add: loop_step_def on_timeout_def vc_is_connected_def)
  next
    case (Some vc)
    with assms(4) have "\<not> playing vc" by (simp add: vc_is_playing_def)
    with Some show ?thesis
      unfolding r using e
      by (simp add: loop_step_def on_timeout_def vc_disconnect_def vc_is_connected_def
          vc_stop_def Let_def)
  qed
  then show ?thesis
    using a by (simp add: enqueue_def start_def put_nowait_def)
qed

lemma run_idle:
  "run idle_session (new_player in_voice) =
     (new_player in_voice)\<lparr>player_task := Some (Active (Waiting 0) False)\<rparr>"
  by (simp add: idle_session_def new_player_def start_def loop_step_def loop_head_def)

text \<open>A started loop with a connected voice client and nothing to play.\<close>

theorem idle_timeout_witness:
  "player_task (run idle_session (new_player in_voice)) = Some (Active (Waiting 0) False)
   \<and> qempty (queue (run idle_session (new_player in_voice)))
   \<and> \<not> vc_is_playing (run idle_session (new_player in_voice))
   \<and> vc_is_connected (run idle_session (new_player in_voice))
   \<and> player_task (run (replicate 299 Tick) (run idle_session (new_player in_voice)))
       = Some (Active (Waiting 299) False)
   \<and> player_task (run (replicate 300 Tick @ [Loop_step, Loop_step])
        (run idle_session (new_player in_voice))) = Some (Done Idle_break)
   \<and> disconnect_calls (run (replicate 300 Tick @ [Loop_step, Loop_step])
        (run idle_session (new_player in_voice))) = 1
   \<and> voice_client (run (replicate 300 Tick @ [Loop_step, Loop_step])
        (run idle_session (new_player in_voice))) = None
   \<and> player_task (enqueue trackD (run (replicate 300 Tick @ [Loop_step, Loop_step])
        (run idle_session (new_player in_voice)))) = Some (Active Created False)"
proof -
  let ?p = "run idle_session (new_player in_voice)"
  have h: "player_task ?p = Some (Active (Waiting 0) False)" "(0::nat) < 300"
    "qempty (queue ?p)" "\<not> vc_is_playing ?p"
    unfolding run_idle by (simp_all add: qempty_def vc_is_playing_def new_player_def in_voice_def)
  have c: "vc_is_connected ?p" "voice_client ?p \<noteq> None" "disconnect_calls ?p = 0"
    unfolding run_idle by (simp_all add: vc_is_connected_def new_player_def in_voice_def)
  from idle_timeout[OF h, of trackD] h c show ?thesis by simp
qed

section \<open>A track without a voice connection\<close>

text \<open>
  Claim C6.  In every run of a new player, when the waiting loop is resumed with a
  track queued and there is no voice client or it is not connected, the track is
  removed from the queue and not handed to the voice client, no exception ends the
  task, \<^verbatim>\<open>now_playing\<close> is empty afterwards, and the loop waits again.
\<close>

theorem discard_without_voice:
  assumes "\<not> vc_is_playing (new_player g)"
    "player_task (run es (new_player g)) = Some (Active (Waiting n) False)"
    "items (queue (run es (new_player g))) = t # ts"
    "\<not> vc_is_connected (run es (new_player g))"
  shows "play_calls (loop_step (run es (new_player g))) = play_calls (run es (new_player g))
     \<and> now_playing (loop_step (run es (new_player g))) = None
     \<and> player_task (loop_step (run es (new_player g))) = Some (Active (Waiting 0) False)
     \<and> items (queue (loop_step (run es (new_player g)))) = ts
     \<and> voice_client (loop_step (run es (new_player g))) = voice_client (run es (new_player g))"
proof -
  let ?s = "run es (new_player g)"
  have i: "inv ?s" using assms(1) by (intro inv_run inv_new)
  with assms(2) have ns: "\<not> stopped ?s" by (simp add: inv_def)
  from i assms(3) obtain u where u: "unfinished_tasks (queue ?s) = Suc u"
    by (cases "unfinished_tasks (queue ?s)") (auto simp: inv_def)
  show ?thesis
    using assms(2,3,4) ns u
    by (auto simp: loop_step_def get_nowait_def on_track_def discard_def task_done_def
        loop_head_def vc_is_connected_def Let_def split: option.splits)
qed

text \<open>Track A is enqueued for a guild that has no voice client.\<close>

theorem discard_without_voice_witness:
  "\<not> vc_is_playing (new_player no_voice)
   \<and> player_task (run unheard_session (new_player no_voice)) = Some (Active (Waiting 0) False)
   \<and> items (queue (run unheard_session (new_player no_voice))) = [trackA]
   \<and> \<not> vc_is_connected (run unheard_session (new_player no_voice))
   \<and> play_calls (loop_step (run unheard_session (new_player no_voice))) = []
   \<and> now_playing (loop_step (run unheard_session (new_player no_voice))) = None
   \<and> player_task (loop_step (run unheard_session (new_player no_voice)))
       = Some (Active (Waiting 0) False)
   \<and> items (queue (loop_step (run unheard_session (new_player no_voice)))) = []"
proof -
  let ?s = "run unheard_session (new_player no_voice)"
  have a: "\<not> vc_is_playing (new_player no_voice)"
    by (simp add: vc_is_playing_def new_player_def no_voice_def)
  have h: "player_task ?s = Some (Active (Waiting 0) False)" "items (queue ?s) = [trackA]"
    "\<not> vc_is_connected ?s"
    unfolding run_unheard by (simp_all add: vc_is_connected_def new_player_def no_voice_def)
  have p: "play_calls ?s = []" unfolding run_unheard by (simp add: new_player_def)
  from discard_without_voice[OF a h] a h p show ?thesis by simp
qed

section \<open>Who disconnects\<close>

lemma stop_voice:
  "map_option connected (voice_client (snd (stop p))) = map_option connected (voice_client p)"
  by (cases "drain (queue p)"; cases "fst (drain (queue p))")
    (auto simp: stop_def Let_def end_playback_def vc_is_playing_def
      split: option.splits prod.splits)

lemma disconnect_calls_resume:
  "c \<noteq> Timed_out \<Longrightarrow> disconnect_calls (resume c p) = disconnect_calls p"
  by (cases c)
    (auto simp: loop_head_def poll_def discard_def on_track_def get_nowait_def Let_def
      split: option.splits list.splits)

lemma disconnect_calls_loop_step:
  assumes "disconnect_calls (loop_step p) \<noteq> disconnect_calls p"
  shows "player_task p = Some (Active Timed_out False)"
proof (cases "player_task p")
  case None
  with assms show ?thesis by (simp add: loop_step_def)
next
  case (Some t)
  show ?thesis
  proof (cases t)
    case (Done x)
    with Some assms show ?thesis by (simp add: loop_step_def)
  next
    case (Active c b)
    with Some assms have b: "\<not> b" by (cases b) (auto simp: loop_step_def)
    with Some Active assms have "disconnect_calls (resume c p) \<noteq> disconnect_calls p"
      by (simp add: loop_step_def)
    then have "c = Timed_out" using disconnect_calls_resume by blast
    with Some Active b show ?thesis by simp
  qed
qed

lemma disconnect_calls_other:
  assumes "e \<noteq> Loop_step" "e \<noteq> Voice_leave"
  shows "disconnect_calls (step e p) = disconnect_calls p"
  using assms
  by (cases e)
    (auto simp: stop_fields enqueue_def start_def tick_def after_callback_def end_playback_def
      split: option.splits task.splits pc.splits nat.splits)

text \<open>
  Claim C10.  \<^verbatim>\<open>stop\<close> leaves the voice client in place, connected or not as it
  was, and sends it no \<^verbatim>\<open>disconnect\<close>.  Of all events, only two make a
  \<^verbatim>\<open>disconnect\<close> call: the leave command, which is not part of the player, and
  the resumption of a loop task whose timeout has expired.
\<close>

theorem stop_never_disconnects:
  "map_option connected (voice_client (snd (stop p))) = map_option connected (voice_client p)
   \<and> disconnect_calls (snd (stop p)) = disconnect_calls p
   \<and> (disconnect_calls (step e p) \<noteq> disconnect_calls p \<longrightarrow>
        e = Voice_leave \<or> (e = Loop_step \<and> player_task p = Some (Active Timed_out False)))"
proof -
  have "e = Voice_leave \<or> (e = Loop_step \<and> player_task p = Some (Active Timed_out False))"
    if d: "disconnect_calls (step e p) \<noteq> disconnect_calls p"
  proof (cases "e = Loop_step")
    case True
    with d have "disconnect_calls (loop_step p) \<noteq> disconnect_calls p" by simp
    then have "player_task p = Some (Active Timed_out False)"
      by (rule disconnect_calls_loop_step)
    with True show ?thesis by simp
  next
    case False
    with d disconnect_calls_other[of e p] show ?thesis by blast
  qed
  then show ?thesis by (simp add: stop_voice stop_fields)
qed

lemma run_idle_timed_out:
  "run (replicate 300 Tick) (run idle_session (new_player in_voice)) =
     (new_player in_voice)\<lparr>player_task := Some (Active Timed_out False)\<rparr>"
proof -
  have "run (replicate (300 - 0) Tick) (run idle_session (new_player in_voice)) =
     (run idle_session (new_player in_voice))\<lparr>player_task := Some (Active Timed_out False)\<rparr>"
    by (rule run_timeout; simp only: run_idle) (simp_all add: qempty_def new_player_def)
  then show ?thesis by (simp add: run_idle)
qed

text \<open>The resumption after 300 idle units of time does disconnect.\<close>

theorem stop_never_disconnects_witness:
  "disconnect_calls (step Loop_step (run (replicate 300 Tick) (run idle_session (new_player in_voice))))
     \<noteq> disconnect_calls (run (replicate 300 Tick) (run idle_session (new_player in_voice)))
   \<and> player_task (run (replicate 300 Tick) (run idle_session (new_player in_voice)))
       = Some (Active Timed_out False)"
proof -
  let ?p = "run (replicate 300 Tick) (run idle_session (new_player in_voice))"
  have d: "disconnect_calls (step Loop_step ?p) \<noteq> disconnect_calls ?p"
    unfolding run_idle_timed_out
    by (simp add: loop_step_def on_timeout_def vc_disconnect_def vc_is_connected_def
        vc_stop_def new_player_def in_voice_def)
  with stop_never_disconnects[of ?p Loop_step] show ?thesis by blast
qed

section \<open>The registry\<close>







end
